theory Spec2Isabelle
  imports Complex_Main
begin

section \<open>Numbers, errors and the working length\<close>

text \<open>
  The coefficients of a sequence are Python numbers. The development is polymorphic in the
  coefficient type: every operation that only adds, subtracts and multiplies is defined over a
  commutative ring with unit, whose instance \<^typ>\<open>int\<close> is Python's unbounded \<open>int\<close>, on which the
  code computes exactly. Python's \<open>/\<close> always yields a \<open>float\<close>; the operations that divide are
  defined over a field and use its exact quotient, which is the value Python computes whenever
  that quotient is representable (as in every evaluation below), and which raises
  \<open>ZeroDivisionError\<close> exactly when Python does. \<open>Seq.__init__\<close> turns a float with an integral
  value into the equal \<open>int\<close>; as \<open>1.0 == 1\<close> this changes no value and is the identity here.

  Exceptions are values: every function that can raise returns \<open>error + result\<close>.
\<close>

datatype error = ZeroDivisionError | IndexError | ValueError

definition std_l :: int where
  "std_l = 30"

section \<open>The class \<open>Seq\<close>\<close>

text \<open>A \<open>Seq\<close> is its field \<open>val\<close>, a list of coefficients.\<close>

text \<open>\<open>Seq.__len__\<close>: a stored single zero has length 0.\<close>

definition len_seq :: "'a::zero list \<Rightarrow> nat" where
  "len_seq v = (if length v = 1 \<and> v ! 0 = 0 then 0 else length v)"

text \<open>\<open>Seq.__getitem__\<close> at an integer index: 0 outside \<open>0 \<le> i < len(self)\<close>.\<close>

definition getitem_seq :: "'a::zero list \<Rightarrow> int \<Rightarrow> 'a" where
  "getitem_seq v i = (if int (len_seq v) > i \<and> i \<ge> 0 then v ! nat i else 0)"

text \<open>\<open>Seq.__setitem__\<close>: assigns only when \<open>len(self) > key >= 0\<close>, otherwise does nothing.\<close>

definition setitem_seq :: "'a::zero list \<Rightarrow> int \<Rightarrow> 'a \<Rightarrow> 'a list" where
  "setitem_seq v key value = (if int (len_seq v) > key \<and> key \<ge> 0 then v[nat key := value] else v)"

text \<open>Python's built-in \<open>sum\<close>: a left fold from 0.\<close>

definition py_sum :: "'a::comm_ring_1 list \<Rightarrow> 'a" where
  "py_sum xs = foldl (\<lambda>n t. n + t) 0 xs"

text \<open>\<open>Seq.__add__\<close>, \<open>Seq.neg\<close>, \<open>Seq.__sub__\<close> and \<open>Seq.__mul__\<close> on a \<open>Seq\<close> operand.\<close>

definition add_seq :: "'a::comm_ring_1 list \<Rightarrow> 'a list \<Rightarrow> 'a list" where
  "add_seq a b =
     (let l = max (len_seq a) (len_seq b)
      in map (\<lambda>k. getitem_seq a (int k) + getitem_seq b (int k)) [0..<l])"

definition neg_seq :: "'a::comm_ring_1 list \<Rightarrow> 'a list" where
  "neg_seq a = map (\<lambda>k. - k) a"

definition sub_seq :: "'a::comm_ring_1 list \<Rightarrow> 'a list \<Rightarrow> 'a list" where
  "sub_seq a b = add_seq a (neg_seq b)"

definition mul_seq :: "'a::comm_ring_1 list \<Rightarrow> 'a list \<Rightarrow> 'a list" where
  "mul_seq a b =
     (let l = int (len_seq a) + int (len_seq b) - 1
      in map (\<lambda>x. py_sum (map (\<lambda>k. getitem_seq a (int k) * getitem_seq b (int x - int k)) [0..<x + 1]))
           [0..<nat l])"

text \<open>\<open>Seq.__eq__\<close> on a \<open>Seq\<close> operand.\<close>

definition eq_seq :: "'a::comm_ring_1 list \<Rightarrow> 'a list \<Rightarrow> bool" where
  "eq_seq a b =
     list_all (\<lambda>k. getitem_seq a (int k) = getitem_seq b (int k)) [0..<max (len_seq a) (len_seq b)]"

text \<open>
  \<open>Seq.f\<close>, the signature function. \<open>f_step a r x\<close> is the inner loop
  \<open>n = 0; for k in range(len(self)): n += self[k] * r[x-k-1]\<close>; the outer loop appends its result
  to \<open>r\<close> for \<open>x\<close> in \<open>range(1, l)\<close>, which is \<open>f_loop a (nat l)\<close> (the range is empty for \<open>l \<le> 1\<close>).
\<close>

definition f_step :: "'a::comm_ring_1 list \<Rightarrow> 'a list \<Rightarrow> nat \<Rightarrow> 'a" where
  "f_step a r x =
     foldl (\<lambda>n k. n + getitem_seq a (int k) * getitem_seq r (int x - int k - 1)) 0 [0..<len_seq a]"

definition f_loop :: "'a::comm_ring_1 list \<Rightarrow> nat \<Rightarrow> 'a list" where
  "f_loop a n = foldl (\<lambda>r x. r @ [f_step a r x]) [1] [1..<n]"

definition f_seq :: "'a::comm_ring_1 list \<Rightarrow> int \<Rightarrow> 'a list" where
  "f_seq a l = f_loop a (nat l)"

text \<open>
  \<open>Seq.i\<close>, the inverse signature function; it raises \<open>ValueError\<close> unless \<open>self[0] == 1\<close>.
  \<open>i_step a r x\<close> is the inner loop \<open>n = self[x]; for k in range(1, x): n -= r[k-1] * self[x-k]\<close>.
\<close>

definition i_step :: "'a::comm_ring_1 list \<Rightarrow> 'a list \<Rightarrow> nat \<Rightarrow> 'a" where
  "i_step a r x =
     foldl (\<lambda>n k. n - getitem_seq r (int k - 1) * getitem_seq a (int x - int k)) (getitem_seq a (int x)) [1..<x]"

definition i_loop :: "'a::comm_ring_1 list \<Rightarrow> nat \<Rightarrow> 'a list" where
  "i_loop a n = foldl (\<lambda>r x. r @ [i_step a r x]) [getitem_seq a 1] [2..<n]"

definition i_seq :: "'a::comm_ring_1 list \<Rightarrow> error + 'a list" where
  "i_seq a = (if getitem_seq a 0 \<noteq> 1 then Inl ValueError else Inr (i_loop a (len_seq a)))"

text \<open>
  \<open>Seq.__pow__\<close> with power \<open>n\<close>: \<open>out = Seq(1)\<close>, then \<open>out *= a\<close> for each \<open>k\<close> in \<open>range(n)\<close>.
\<close>

definition pow_seq :: "'a::comm_ring_1 list \<Rightarrow> int \<Rightarrow> 'a list" where
  "pow_seq a n = foldl (\<lambda>out k. mul_seq out a) [1] [0..<nat n]"

text \<open>
  \<open>Seq.__truediv__\<close>: the first statement divides by \<open>o[0]\<close>, which raises \<open>ZeroDivisionError\<close>
  when it is 0; otherwise the loop over \<open>range(1, max(len(self), len(o)))\<close> appends
  \<open>(self[x] - sum(r[k] * o[x-k] for k in range(x))) / o[0]\<close>.
\<close>

definition truediv_seq :: "'a::field list \<Rightarrow> 'a list \<Rightarrow> error + 'a list" where
  "truediv_seq a b =
     (if getitem_seq b 0 = 0 then Inl ZeroDivisionError
      else Inr (foldl
        (\<lambda>r x. r @ [(getitem_seq a (int x)
                        - py_sum (map (\<lambda>k. getitem_seq r (int k) * getitem_seq b (int x - int k)) [0..<x]))
                      / getitem_seq b 0])
        [getitem_seq a 0 / getitem_seq b 0]
        [1..<max (len_seq a) (len_seq b)]))"




section \<open>The class \<open>Sig\<close>\<close>

text \<open>A \<open>Sig\<close> wraps one \<open>Seq\<close>, its field \<open>val\<close>.\<close>

datatype 'a sig = Sig (sval: "'a list")

definition len_sig :: "'a::zero sig \<Rightarrow> nat" where
  "len_sig s = len_seq (sval s)"

definition getitem_sig :: "'a::zero sig \<Rightarrow> int \<Rightarrow> 'a" where
  "getitem_sig s i = getitem_seq (sval s) i"

definition eq_sig :: "'a::comm_ring_1 sig \<Rightarrow> 'a sig \<Rightarrow> bool" where
  "eq_sig s t = eq_seq (sval s) (sval t)"

text \<open>The module's global \<open>x = Seq([0, 1])\<close>.\<close>

definition x_shift :: "'a::comm_ring_1 list" where
  "x_shift = [0, 1]"

text \<open>
  \<open>Sig.__mul__\<close>, signature convolution. The loop state is \<open>(out, g)\<close>; \<open>g * o[k]\<close> multiplies by
  the number \<open>o[k]\<close>, which \<open>check_seq\<close> wraps as \<open>Seq([o[k]])\<close>.
\<close>

definition mul_sig :: "'a::comm_ring_1 sig \<Rightarrow> 'a sig \<Rightarrow> 'a sig" where
  "mul_sig s t =
     (let a = sval s;
          aw = mul_seq a x_shift;
          (out, g) = foldl
            (\<lambda>(out, g) k. (add_seq out (mul_seq g [getitem_sig t (int k)]), mul_seq g aw))
            ([0], [1]) [0..<len_sig t]
      in Sig (mul_seq out a))"

text \<open>
  The loop \<open>while out[-1] == 0: out.pop(-1)\<close> that ends both signature divisions, on a Python
  list: \<open>out[-1]\<close> raises \<open>IndexError\<close> once the list is empty.
\<close>

function strip_zeros :: "'a::zero list \<Rightarrow> error + 'a list" where
  "strip_zeros out =
     (if out = [] then Inl IndexError
      else if last out = 0 then strip_zeros (butlast out)
      else Inr out)"
  by pat_completeness auto
termination
  by (relation "measure length") auto

text \<open>
  \<open>Sig.__floordiv__\<close>. \<open>block\<close> is a Python list of \<open>l\<close> sequences, each with a list of its own.
  \<open>floordiv_inner\<close> is the loop \<open>for k in range(1, l)\<close> that appends to \<open>block[k]\<close>;
  \<open>floordiv_step\<close> is one round of the loop \<open>for x in range(1, l)\<close>. The second statement divides by
  \<open>b[0]\<close>. After the loops \<open>block[0]\<close> raises \<open>IndexError\<close> when \<open>l = 0\<close>.
\<close>

definition floordiv_inner :: "nat \<Rightarrow> 'a::field list list \<Rightarrow> 'a list list" where
  "floordiv_inner l block =
     foldl (\<lambda>blk k. blk[k := blk ! k @
              [py_sum (map (\<lambda>t. getitem_seq (blk ! 0) (int (len_seq (blk ! 0)) - int t - 1)
                                  * getitem_seq (blk ! (k - 1)) (int t))
                           [0..<len_seq (blk ! 0)])]])
       block [1..<l]"

definition floordiv_step :: "'a::field sig \<Rightarrow> 'a sig \<Rightarrow> nat \<Rightarrow> 'a list list \<Rightarrow> nat \<Rightarrow> 'a list list" where
  "floordiv_step s b l block x =
     (let v = (getitem_sig s (int x)
               - py_sum (map (\<lambda>k. getitem_seq (block ! k) (int x - int k) * getitem_sig b (int k)) [1..<x + 1]))
              / getitem_sig b 0
      in floordiv_inner l (block[0 := block ! 0 @ [v]]))"

definition floordiv_sig :: "'a::field sig \<Rightarrow> 'a sig \<Rightarrow> error + 'a sig" where
  "floordiv_sig s b =
     (let l = max (len_sig s) (len_sig b)
      in if getitem_sig b 0 = 0 then Inl ZeroDivisionError
         else
           (let q = [getitem_sig s 0 / getitem_sig b 0];
                block0 = map (\<lambda>x. pow_seq q (int x + 1)) [0..<l];
                block = foldl (floordiv_step s b l) block0 [1..<l]
            in if block = [] then Inl IndexError
               else (case strip_zeros (block ! 0) of
                       Inl e \<Rightarrow> Inl e
                     | Inr out \<Rightarrow> Inr (Sig out))))"

text \<open>
  \<open>Sig.__truediv__\<close>. The loop state is \<open>(out, ap, bp)\<close>. In \<open>bp *= x * a\<close> the name \<open>x\<close> is the loop
  variable, an \<open>int\<close>: \<open>x * a\<close> is \<open>Sig.__rmul__\<close>, which wraps the number as \<open>Sig(Seq([x]))\<close> and
  computes \<open>Sig([x]) * a\<close> by \<open>Sig.__mul__\<close>. \<open>ap[x] / bp[x]\<close> raises \<open>ZeroDivisionError\<close> when
  \<open>bp[x]\<close> is 0. \<open>out[x]\<close> is the element just appended (\<open>out\<close> has \<open>x + 1\<close> elements there).
\<close>

fun truediv_loop ::
  "'a::field sig \<Rightarrow> nat list \<Rightarrow> 'a list \<times> 'a list \<times> 'a list \<Rightarrow> error + 'a list \<times> 'a list \<times> 'a list" where
  "truediv_loop a [] st = Inr st"
| "truediv_loop a (x # xs) (out, ap, bp) =
     (if getitem_seq bp (int x) = 0 then Inl ZeroDivisionError
      else
        (let out' = out @ [getitem_seq ap (int x) / getitem_seq bp (int x)];
             ap' = sub_seq ap (mul_seq bp [out' ! x]);
             bp' = mul_seq bp (sval (mul_sig (Sig [of_nat x]) a))
         in truediv_loop a xs (out', ap', bp')))"

definition truediv_sig :: "'a::field sig \<Rightarrow> 'a sig \<Rightarrow> error + 'a sig" where
  "truediv_sig s a =
     (let l = max (len_sig s) (len_sig a)
      in case truediv_loop a [0..<l] ([], sval s, sval a) of
           Inl e \<Rightarrow> Inl e
         | Inr (out, ap, bp) \<Rightarrow>
             (case strip_zeros out of
                Inl e \<Rightarrow> Inl e
              | Inr out' \<Rightarrow> Inr (Sig out')))"

section \<open>The class \<open>Block\<close>\<close>

text \<open>
  A \<open>Block\<close> has the fields \<open>l\<close>, \<open>L\<close> and \<open>val\<close>, a list of rows. \<open>Block.__init__\<close> on a list of
  \<open>Seq\<close> rows sets \<open>L = max([len(k) for k in val])\<close>, and \<open>max\<close> raises \<open>ValueError\<close> on an empty
  list. Every row is an object of its own in all blocks built below, so assigning through
  \<open>out[x][y] = v\<close> changes that row only.
\<close>

record 'a block =
  l_of :: int
  L_of :: nat
  val_of :: "'a list list"

definition Block_init :: "'a::zero list list \<Rightarrow> int \<Rightarrow> error + 'a block" where
  "Block_init v l =
     (case map len_seq v of
        [] \<Rightarrow> Inl ValueError
      | n # ns \<Rightarrow> Inr \<lparr>l_of = l, L_of = foldl max n ns, val_of = v\<rparr>)"

text \<open>\<open>Block.__getitem__\<close> at an integer index: the row, or a fresh \<open>Seq(0)\<close> outside the stored rows.\<close>

definition getitem_block :: "'a::zero block \<Rightarrow> int \<Rightarrow> 'a list" where
  "getitem_block B i = (if int (length (val_of B)) > i \<and> i \<ge> 0 then val_of B ! nat i else [0])"

text \<open>
  The assignment \<open>out[x][y] = v\<close>: \<open>Block.__getitem__\<close> then \<open>Seq.__setitem__\<close> on the row it
  returns; outside the stored rows the row assigned to is a temporary.
\<close>

definition setcell_block :: "'a::zero block \<Rightarrow> int \<Rightarrow> int \<Rightarrow> 'a \<Rightarrow> 'a block" where
  "setcell_block B x y v =
     (if int (length (val_of B)) > x \<and> x \<ge> 0
      then B\<lparr>val_of := (val_of B)[nat x := setitem_seq (val_of B ! nat x) y v]\<rparr>
      else B)"

text \<open>\<open>Block.blank\<close> and \<open>Block.identity\<close>.\<close>

definition blank_block :: "int \<Rightarrow> error + 'a::zero block" where
  "blank_block l = Block_init (replicate (nat l) (replicate (nat l) 0)) std_l"

definition identity_block :: "int \<Rightarrow> error + 'a::comm_ring_1 block" where
  "identity_block l =
     (case blank_block l of
        Inl e \<Rightarrow> Inl e
      | Inr out \<Rightarrow> Inr (foldl (\<lambda>out n. setcell_block out (int n) (int n) 1) out [0..<nat l]))"

text \<open>
  \<open>Block.__mul__\<close> on a \<open>Block\<close> operand: \<open>out\<close> has \<open>max(self.l, other.l)\<close> rows of
  \<open>max(self.L, other.L)\<close> zeros, and the cells \<open>(x, y)\<close> with \<open>x, y < self.L\<close> are assigned.
\<close>

definition mul_block :: "'a::comm_ring_1 block \<Rightarrow> 'a block \<Rightarrow> error + 'a block" where
  "mul_block A B =
     (case Block_init (replicate (nat (max (l_of A) (l_of B))) (replicate (max (L_of A) (L_of B)) 0)) std_l of
        Inl e \<Rightarrow> Inl e
      | Inr out \<Rightarrow> Inr (foldl
          (\<lambda>out x. foldl
             (\<lambda>out y. setcell_block out (int x) (int y)
                (py_sum (map (\<lambda>k. getitem_seq (getitem_block A (int x)) (int k)
                                   * getitem_seq (getitem_block B (int k)) (int y))
                             [0..<L_of A])))
             out [0..<L_of A])
          out [0..<L_of A]))"

text \<open>
  \<open>Block.__pow__\<close> with power \<open>n\<close>: the identity of size \<open>len(self)\<close> for \<open>n = 0\<close>; otherwise
  \<open>out\<close> starts as \<open>Block(list(self.val))\<close> and is multiplied by \<open>self\<close> once for each \<open>k\<close> in
  \<open>range(n)\<close>.
\<close>

definition pow_block :: "'a::comm_ring_1 block \<Rightarrow> int \<Rightarrow> error + 'a block" where
  "pow_block A n =
     (if n = 0 then identity_block (int (length (val_of A)))
      else foldl (\<lambda>out k. case out of Inl e \<Rightarrow> Inl e | Inr out' \<Rightarrow> mul_block out' A)
             (Block_init (val_of A) std_l) [0..<nat n])"






section \<open>Basic facts about \<open>Seq\<close>\<close>

lemma len_seq_le: "len_seq v \<le> length v"
  by (simp add: len_seq_def)

lemma getitem_seq_nth:
  "getitem_seq v i = (if 0 \<le> i \<and> nat i < length v then v ! nat i else 0)"
proof (cases "length v = 1 \<and> v ! 0 = 0")
  case True
  then show ?thesis
    by (auto simp: getitem_seq_def len_seq_def)
next
  case False
  then have "len_seq v = length v"
    by (auto simp: len_seq_def)
  then show ?thesis
    by (auto simp: getitem_seq_def)
qed

lemma getitem_seq_beyond: "int (len_seq v) \<le> i \<Longrightarrow> getitem_seq v i = 0"
  by (simp add: getitem_seq_def)

lemma getitem_seq_neg: "i < 0 \<Longrightarrow> getitem_seq v i = 0"
  by (simp add: getitem_seq_def)

lemma foldl_plus_sum:
  fixes h :: "nat \<Rightarrow> 'a::comm_ring_1"
  shows "foldl (\<lambda>n k. n + h k) z [0..<m] = z + (\<Sum>k = 0..<m. h k)"
  by (induction m) (simp_all add: add.assoc)

lemma py_sum_sum_list: "py_sum xs = sum_list xs"
proof -
  have "foldl (\<lambda>n t. n + t) z xs = z + sum_list xs" for z :: 'a
    by (induction xs arbitrary: z) (simp_all add: add.assoc)
  from this [of 0] show ?thesis
    by (simp add: py_sum_def)
qed

lemma py_sum_upt:
  "py_sum (map h [0..<m]) = (\<Sum>k = 0..<m. h k)"
  by (simp add: py_sum_sum_list interv_sum_list_conv_sum_set_nat)

section \<open>The signature function\<close>

lemma f_step_sum:
  "f_step a r x = (\<Sum>k = 0..<len_seq a. getitem_seq a (int k) * getitem_seq r (int x - int k - 1))"
  by (simp add: f_step_def foldl_plus_sum)

lemma f_step_append:
  assumes "x \<le> length r"
  shows "f_step a (r @ s) x = f_step a r x"
proof -
  have "getitem_seq (r @ s) (int x - int k - 1) = getitem_seq r (int x - int k - 1)" for k
    using assms by (auto simp: getitem_seq_nth nth_append)
  then show ?thesis
    by (simp add: f_step_sum)
qed

lemma f_loop_Suc:
  "1 \<le> n \<Longrightarrow> f_loop a (Suc n) = f_loop a n @ [f_step a (f_loop a n) n]"
  by (simp add: f_loop_def)

lemma length_f_loop: "1 \<le> n \<Longrightarrow> length (f_loop a n) = n"
proof (induction n rule: nat_induct_at_least)
  case base
  show ?case by (simp add: f_loop_def)
next
  case (Suc n)
  then show ?case by (simp add: f_loop_Suc)
qed

lemma f_loop_nth_0: "1 \<le> n \<Longrightarrow> f_loop a n ! 0 = 1"
proof (induction n rule: nat_induct_at_least)
  case base
  show ?case by (simp add: f_loop_def)
next
  case (Suc n)
  then show ?case by (simp add: f_loop_Suc nth_append length_f_loop)
qed

lemma len_seq_f_loop: "1 \<le> n \<Longrightarrow> len_seq (f_loop a n) = n"
  using f_loop_nth_0 [of n a] length_f_loop [of n a]
  by (simp add: len_seq_def)

lemma getitem_f_loop_0: "1 \<le> n \<Longrightarrow> getitem_seq (f_loop a n) 0 = 1"
  using f_loop_nth_0 [of n a] length_f_loop [of n a]
  by (simp add: getitem_seq_nth)

text \<open>Every stored coefficient after the first satisfies the recurrence on the finished list.\<close>

lemma f_loop_rec:
  "1 \<le> n \<Longrightarrow> 1 \<le> x \<Longrightarrow> x < n \<Longrightarrow> f_loop a n ! x = f_step a (f_loop a n) x"
proof (induction n rule: nat_induct_at_least)
  case base
  then show ?case by simp
next
  case (Suc n)
  let ?r = "f_loop a n"
  have len: "length ?r = n" using Suc.hyps by (rule length_f_loop)
  show ?case
  proof (cases "x < n")
    case True
    then have "f_loop a (Suc n) ! x = ?r ! x"
      using Suc.hyps len by (simp add: f_loop_Suc nth_append)
    also have "\<dots> = f_step a ?r x" using Suc True by simp
    also have "\<dots> = f_step a (f_loop a (Suc n)) x"
      using Suc.hyps len True by (simp add: f_loop_Suc f_step_append)
    finally show ?thesis .
  next
    case False
    then have "x = n" using Suc.prems by simp
    then show ?thesis
      using Suc.hyps len by (simp add: f_loop_Suc nth_append f_step_append)
  qed
qed

lemma f_step_explicit:
  assumes "x < length r"
  shows "f_step a r x =
    (\<Sum>k = 0..<len_seq a. if int x - int k - 1 < 0 then 0 else a ! k * r ! (x - k - 1))"
  unfolding f_step_sum
proof (rule sum.cong [OF refl])
  fix k assume "k \<in> {0..<len_seq a}"
  then have k: "k < len_seq a" by simp
  then have ak: "getitem_seq a (int k) = a ! k"
    by (simp add: getitem_seq_def)
  show "getitem_seq a (int k) * getitem_seq r (int x - int k - 1) =
        (if int x - int k - 1 < 0 then 0 else a ! k * r ! (x - k - 1))"
  proof (cases "int x - int k - 1 < 0")
    case True
    then show ?thesis by (simp add: getitem_seq_neg)
  next
    case False
    then have "nat (int x - int k - 1) = x - k - 1" by linarith
    moreover have "x - k - 1 < length r" using assms by linarith
    ultimately show ?thesis using False ak by (simp add: getitem_seq_nth)
  qed
qed

text \<open>
  Claim C1. For every sequence \<open>a\<close> and every length \<open>l \<ge> 1\<close>, \<open>Seq.f\<close> returns a list \<open>r\<close> of
  \<open>l\<close> coefficients with \<open>r[0] = 1\<close> and, for \<open>1 \<le> x < l\<close>, \<open>r[x]\<close> the sum over
  \<open>k = 0, \<dots>, len(a) - 1\<close> of \<open>a[k] * r[x-k-1]\<close>, where a term with \<open>x-k-1 < 0\<close> is 0; and
  \<open>Seq([1,1]).f(5)\<close> is \<open>[1, 1, 2, 3, 5]\<close>.
\<close>

theorem f_seq_recurrence:
  fixes a :: "'a::comm_ring_1 list"
  assumes "1 \<le> l"
  shows "length (f_seq a l) = nat l \<and> f_seq a l ! 0 = 1 \<and>
    (\<forall>x. 1 \<le> x \<and> x < nat l \<longrightarrow>
       f_seq a l ! x =
         (\<Sum>k = 0..<len_seq a. if int x - int k - 1 < 0 then 0 else a ! k * f_seq a l ! (x - k - 1))) \<and>
    f_seq [1, 1 :: int] 5 = [1, 1, 2, 3, 5]"
proof -
  from assms have n: "1 \<le> nat l" by simp
  have len: "length (f_seq a l) = nat l"
    using n by (simp add: f_seq_def length_f_loop)
  have hd: "f_seq a l ! 0 = 1"
    using n by (simp add: f_seq_def f_loop_nth_0)
  have rec: "f_seq a l ! x =
      (\<Sum>k = 0..<len_seq a. if int x - int k - 1 < 0 then 0 else a ! k * f_seq a l ! (x - k - 1))"
    if "1 \<le> x" "x < nat l" for x
  proof -
    have "f_seq a l ! x = f_step a (f_seq a l) x"
      using n that by (simp add: f_seq_def f_loop_rec)
    then show ?thesis
      using that len by (simp add: f_step_explicit)
  qed
  have fib: "f_seq [1, 1 :: int] 5 = [1, 1, 2, 3, 5]"
    by code_simp
  from len hd rec fib show ?thesis by blast
qed

theorem f_seq_recurrence_witness:
  "(1::int) \<le> 5 \<and> length (f_seq [1, 1 :: int] 5) = 5 \<and> f_seq [1, 1 :: int] 5 ! 0 = 1 \<and>
   f_seq [1, 1 :: int] 5 ! 4 = f_seq [1, 1 :: int] 5 ! 3 + f_seq [1, 1 :: int] 5 ! 2"
proof -
  have h: "(1::int) \<le> 5" by simp
  from f_seq_recurrence [OF h, of "[1, 1 :: int]"] show ?thesis
    by (simp add: len_seq_def)
qed

text \<open>
  Claim C9. For every sequence \<open>a\<close> and every length \<open>l \<ge> 1\<close>, \<open>Seq.f\<close> returns exactly \<open>l\<close>
  stored coefficients, the first of which is 1; so \<open>Seq.i\<close> on that result passes its test
  \<open>self[0] != 1\<close>, does not raise its \<open>ValueError\<close>, and returns the list its loop builds.
\<close>

theorem f_seq_invertible:
  fixes a :: "'a::comm_ring_1 list"
  assumes "1 \<le> l"
  shows "length (f_seq a l) = nat l \<and> f_seq a l ! 0 = 1 \<and>
         i_seq (f_seq a l) \<noteq> Inl ValueError \<and>
         i_seq (f_seq a l) = Inr (i_loop (f_seq a l) (nat l))"
proof -
  from assms have n: "1 \<le> nat l" by simp
  then show ?thesis
    by (simp add: f_seq_def length_f_loop f_loop_nth_0 i_seq_def getitem_f_loop_0 len_seq_f_loop)
qed

theorem f_seq_invertible_witness:
  "(1::int) \<le> 5 \<and> length (f_seq [1, 1 :: int] 5) = 5 \<and> f_seq [1, 1 :: int] 5 ! 0 = 1 \<and>
   i_seq (f_seq [1, 1 :: int] 5) = Inr [1, 1, 0, 0]"
proof -
  have h: "(1::int) \<le> 5" by simp
  have "i_loop (f_seq [1, 1 :: int] 5) (nat 5) = [1, 1, 0, 0]"
    by code_simp
  with f_seq_invertible [OF h, of "[1, 1 :: int]"] show ?thesis
    by simp
qed

section \<open>Coefficients of sums and products\<close>

text \<open>
  Read through \<open>Seq.__getitem__\<close>, the sum of two sequences is the coefficientwise sum and the
  product is the Cauchy product, at every index; the stored lengths play no part.
\<close>

lemma sum_single:
  fixes h :: "nat \<Rightarrow> 'a::comm_ring_1"
  assumes "j < m" and "\<And>k. k < m \<Longrightarrow> k \<noteq> j \<Longrightarrow> h k = 0"
  shows "(\<Sum>k = 0..<m. h k) = h j"
proof -
  have "(\<Sum>k = 0..<m. h k) = (\<Sum>k = 0..<m. if k = j then h j else 0)"
    using assms(2) by (intro sum.cong) auto
  also have "\<dots> = h j"
    using assms(1) by simp
  finally show ?thesis .
qed

lemma sum_all_zero:
  fixes h :: "nat \<Rightarrow> 'a::comm_ring_1"
  assumes "\<And>k. k < m \<Longrightarrow> h k = 0"
  shows "(\<Sum>k = 0..<m. h k) = 0"
  using assms by (intro sum.neutral) auto

lemma getitem_add_seq:
  "getitem_seq (add_seq a b) i = getitem_seq a i + getitem_seq b i"
proof (cases "0 \<le> i \<and> nat i < max (len_seq a) (len_seq b)")
  case True
  then have "getitem_seq (add_seq a b) i = add_seq a b ! nat i"
    by (simp add: getitem_seq_nth add_seq_def)
  also have "\<dots> = getitem_seq a (int (nat i)) + getitem_seq b (int (nat i))"
    using True by (simp add: add_seq_def)
  finally show ?thesis
    using True by simp
next
  case False
  then have "getitem_seq a i = 0" "getitem_seq b i = 0"
    by (auto simp: getitem_seq_def)
  moreover from False have "getitem_seq (add_seq a b) i = 0"
    by (auto simp: getitem_seq_nth add_seq_def)
  ultimately show ?thesis
    by simp
qed

lemma getitem_neg_seq: "getitem_seq (neg_seq a) i = - getitem_seq a i"
  by (simp add: getitem_seq_nth neg_seq_def)

lemma getitem_sub_seq: "getitem_seq (sub_seq a b) i = getitem_seq a i - getitem_seq b i"
  by (simp add: sub_seq_def getitem_add_seq getitem_neg_seq)

lemma length_mul_seq: "length (mul_seq a b) = nat (int (len_seq a) + int (len_seq b) - 1)"
  by (simp add: mul_seq_def)

lemma cauchy_beyond:
  fixes a b :: "'a::comm_ring_1 list"
  assumes "int (len_seq a) + int (len_seq b) - 1 \<le> int x"
  shows "(\<Sum>k = 0..<x + 1. getitem_seq a (int k) * getitem_seq b (int x - int k)) = 0"
proof (rule sum_all_zero)
  fix k assume "k < x + 1"
  show "getitem_seq a (int k) * getitem_seq b (int x - int k) = 0"
  proof (cases "k < len_seq a")
    case True
    with assms have "int (len_seq b) \<le> int x - int k" by linarith
    then show ?thesis by (simp add: getitem_seq_beyond)
  next
    case False
    then show ?thesis by (simp add: getitem_seq_beyond)
  qed
qed

lemma getitem_mul_seq:
  "getitem_seq (mul_seq a b) i =
     (if 0 \<le> i then (\<Sum>k = 0..<nat i + 1. getitem_seq a (int k) * getitem_seq b (i - int k)) else 0)"
proof (cases "0 \<le> i")
  case False
  then show ?thesis by (simp add: getitem_seq_neg)
next
  case True
  then obtain x where i: "i = int x" by (metis nat_0_le)
  show ?thesis
  proof (cases "x < length (mul_seq a b)")
    case True
    then have "mul_seq a b ! x =
        py_sum (map (\<lambda>k. getitem_seq a (int k) * getitem_seq b (int x - int k)) [0..<x + 1])"
      by (simp add: mul_seq_def del: upt_Suc)
    with True show ?thesis
      by (simp add: getitem_seq_nth [of "mul_seq a b"] i py_sum_upt del: upt_Suc)
  next
    case False
    then have "int (len_seq a) + int (len_seq b) - 1 \<le> int x"
      by (simp add: length_mul_seq)
    from cauchy_beyond [OF this] False show ?thesis
      by (simp add: getitem_seq_nth [of "mul_seq a b"] i)
  qed
qed

lemma eq_seq_I: "(\<And>i. getitem_seq a i = getitem_seq b i) \<Longrightarrow> eq_seq a b"
  by (simp add: eq_seq_def list_all_iff)

lemma getitem_single: "getitem_seq [c] i = (if i = 0 then c else 0)"
  by (auto simp: getitem_seq_nth)

lemma getitem_mul_single_right:
  "getitem_seq (mul_seq a [c]) i = getitem_seq a i * c"
proof (cases "0 \<le> i")
  case False
  then show ?thesis by (simp add: getitem_seq_neg)
next
  case True
  then obtain x where i: "i = int x" by (metis nat_0_le)
  have "(\<Sum>k = 0..<x + 1. getitem_seq a (int k) * getitem_seq [c] (int x - int k))
        = getitem_seq a (int x) * getitem_seq [c] (int x - int x)"
    by (rule sum_single) (auto simp: getitem_single)
  then show ?thesis
    by (simp add: getitem_mul_seq i getitem_single)
qed

lemma getitem_mul_single_left:
  "getitem_seq (mul_seq [c] a) i = c * getitem_seq a i"
proof (cases "0 \<le> i")
  case False
  then show ?thesis by (simp add: getitem_seq_neg)
next
  case True
  then obtain x where i: "i = int x" by (metis nat_0_le)
  have "(\<Sum>k = 0..<x + 1. getitem_seq [c] (int k) * getitem_seq a (int x - int k))
        = getitem_seq [c] (int 0) * getitem_seq a (int x - int 0)"
    by (rule sum_single) (auto simp: getitem_single)
  then show ?thesis
    by (simp add: getitem_mul_seq i getitem_single)
qed

text \<open>Multiplying by the shift \<open>[0, 1]\<close> moves every coefficient one place up.\<close>

lemma getitem_x_shift: "getitem_seq (x_shift :: 'a::comm_ring_1 list) i = (if i = 1 then 1 else 0)"
proof -
  have "nat i = Suc 0 \<longleftrightarrow> i = 1" by linarith
  then show ?thesis
    by (auto simp: getitem_seq_nth x_shift_def nth_Cons split: nat.splits)
qed

lemma getitem_mul_delta:
  fixes g :: "'a::comm_ring_1 list"
  assumes g: "\<And>i. getitem_seq g i = (if i = int n then 1 else 0)"
  shows "getitem_seq (mul_seq g b) i = getitem_seq b (i - int n)"
proof (cases "int n \<le> i")
  case False
  have "getitem_seq (mul_seq g b) i = 0"
  proof (cases "0 \<le> i")
    case True
    have "(\<Sum>k = 0..<nat i + 1. getitem_seq g (int k) * getitem_seq b (i - int k)) = 0"
      using False True by (intro sum_all_zero) (auto simp: g)
    with True show ?thesis by (simp add: getitem_mul_seq)
  qed (simp add: getitem_seq_neg)
  with False show ?thesis by (simp add: getitem_seq_neg)
next
  case True
  then have "(\<Sum>k = 0..<nat i + 1. getitem_seq g (int k) * getitem_seq b (i - int k))
      = getitem_seq g (int n) * getitem_seq b (i - int n)"
    by (intro sum_single) (auto simp: g)
  with True show ?thesis by (simp add: getitem_mul_seq g)
qed

section \<open>The inverse signature function\<close>

lemma f_step_sum_upto:
  "f_step a r x = (\<Sum>k = 0..<x. getitem_seq a (int k) * getitem_seq r (int x - int k - 1))"
proof -
  let ?h = "\<lambda>k. getitem_seq a (int k) * getitem_seq r (int x - int k - 1)"
  have "sum ?h {0..<len_seq a} = sum ?h {0..<min x (len_seq a)}"
    by (rule sum.mono_neutral_right) (auto simp: getitem_seq_neg)
  moreover have "sum ?h {0..<x} = sum ?h {0..<min x (len_seq a)}"
    by (rule sum.mono_neutral_right) (auto simp: getitem_seq_beyond)
  ultimately show ?thesis
    by (simp add: f_step_sum)
qed

lemma foldl_minus_sum:
  fixes h :: "nat \<Rightarrow> 'a::comm_ring_1"
  shows "m \<le> n \<Longrightarrow> foldl (\<lambda>n k. n - h k) z [m..<n] = z - (\<Sum>k = m..<n. h k)"
  by (induction n rule: dec_induct) (simp_all add: algebra_simps)

lemma i_step_sum:
  "1 \<le> x \<Longrightarrow> i_step a r x =
     getitem_seq a (int x) - (\<Sum>k = 1..<x. getitem_seq r (int k - 1) * getitem_seq a (int x - int k))"
  by (simp add: i_step_def foldl_minus_sum)

lemma i_step_append:
  assumes "x \<le> length s + 1"
  shows "i_step a (s @ u) x = i_step a s x"
proof (cases "1 \<le> x")
  case True
  have "getitem_seq (s @ u) (int k - 1) = getitem_seq s (int k - 1)" if "k \<in> {1..<x}" for k
    using assms that by (auto simp: getitem_seq_nth nth_append)
  then show ?thesis
    using True by (simp add: i_step_sum)
next
  case False
  then show ?thesis by (simp add: i_step_def)
qed

lemma i_loop_base: "n \<le> 2 \<Longrightarrow> i_loop a n = [getitem_seq a 1]"
  by (simp add: i_loop_def)

lemma i_loop_Suc:
  "2 \<le> n \<Longrightarrow> i_loop a (Suc n) = i_loop a n @ [i_step a (i_loop a n) n]"
  by (simp add: i_loop_def)

lemma length_i_loop: "2 \<le> n \<Longrightarrow> length (i_loop a n) = n - 1"
proof (induction n rule: nat_induct_at_least)
  case base
  show ?case by (simp add: i_loop_base)
next
  case (Suc n)
  then show ?case by (simp add: i_loop_Suc)
qed

lemma i_loop_nth_0: "i_loop a n ! 0 = getitem_seq a 1"
proof (cases "2 \<le> n")
  case True
  then show ?thesis
  proof (induction n rule: nat_induct_at_least)
    case base
    show ?case by (simp add: i_loop_base)
  next
    case (Suc n)
    then show ?case by (simp add: i_loop_Suc nth_append length_i_loop)
  qed
next
  case False
  then show ?thesis by (simp add: i_loop_base)
qed

text \<open>Every stored coefficient after the first satisfies the recurrence of the inverse on the finished list.\<close>

lemma i_loop_rec:
  "2 \<le> n \<Longrightarrow> 2 \<le> x \<Longrightarrow> x < n \<Longrightarrow> i_loop a n ! (x - 1) = i_step a (i_loop a n) x"
proof (induction n rule: nat_induct_at_least)
  case base
  then show ?case by simp
next
  case (Suc n)
  let ?s = "i_loop a n"
  have len: "length ?s = n - 1" using Suc.hyps by (rule length_i_loop)
  show ?case
  proof (cases "x < n")
    case True
    with Suc.prems have lt: "x - 1 < n - 1" by linarith
    then have "i_loop a (Suc n) ! (x - 1) = ?s ! (x - 1)"
      using Suc.hyps len by (simp add: i_loop_Suc nth_append)
    also have "\<dots> = i_step a ?s x" using Suc True by simp
    also have "\<dots> = i_step a (i_loop a (Suc n)) x"
      using Suc.hyps len True by (simp add: i_loop_Suc i_step_append)
    finally show ?thesis .
  next
    case False
    then have "x = n" using Suc.prems by simp
    then show ?thesis
      using Suc.hyps len by (simp add: i_loop_Suc nth_append i_step_append)
  qed
qed

lemma getitem_i_loop_0: "getitem_seq (i_loop a n) 0 = getitem_seq a 1"
proof -
  have "i_loop a n \<noteq> []"
  proof (cases "2 \<le> n")
    case True
    then have "length (i_loop a n) = n - 1" by (rule length_i_loop)
    with True show ?thesis by auto
  next
    case False
    then show ?thesis by (simp add: i_loop_base)
  qed
  then show ?thesis
    using i_loop_nth_0 [of a n] by (simp add: getitem_seq_nth)
qed

text \<open>The inverse applied to the signature function's result: the stored coefficients are those of \<open>a\<close>.\<close>

lemma i_loop_f_loop:
  fixes a :: "'a::comm_ring_1 list"
  assumes "2 \<le> m" and "m \<le> n" and "j < m - 1"
  shows "i_loop (f_loop a n) m ! j = getitem_seq a (int j)"
  using assms
proof (induction m arbitrary: j rule: nat_induct_at_least)
  case base
  let ?r = "f_loop a n"
  from base have j: "j = 0" by simp
  have n: "1 \<le> n" "1 < n" using base by simp_all
  have "getitem_seq ?r 1 = ?r ! 1"
    using n by (simp add: getitem_seq_nth length_f_loop)
  also have "\<dots> = f_step a ?r 1"
    using n by (simp add: f_loop_rec)
  also have "\<dots> = getitem_seq a 0 * getitem_seq ?r 0"
    by (simp add: f_step_sum_upto)
  also have "\<dots> = getitem_seq a 0"
    using n by (simp add: getitem_f_loop_0)
  finally show ?case
    by (simp add: j i_loop_base)
next
  case (Suc m)
  let ?r = "f_loop a n"
  let ?s = "i_loop ?r m"
  have n: "1 \<le> n" "m < n" using Suc by simp_all
  have len: "length ?s = m - 1" using Suc.hyps by (rule length_i_loop)
  have IH: "?s ! k = getitem_seq a (int k)" if "k < m - 1" for k
    using Suc.IH [of k] Suc.prems that by simp
  show ?case
  proof (cases "j < m - 1")
    case True
    then show ?thesis
      using Suc.hyps len IH by (simp add: i_loop_Suc nth_append)
  next
    case False
    with Suc.prems Suc.hyps have j: "j = m - 1" by linarith
    have s_get: "getitem_seq ?s (int k - 1) = getitem_seq a (int k - 1)" if "k \<in> {1..<m}" for k
    proof -
      from that have "nat (int k - 1) = k - 1" "k - 1 < m - 1" "0 \<le> int k - 1" by auto
      then show ?thesis
        using IH [of "k - 1"] len by (simp add: getitem_seq_nth [of ?s])
    qed
    have "i_step ?r ?s m = getitem_seq ?r (int m)
        - (\<Sum>k = 1..<m. getitem_seq ?s (int k - 1) * getitem_seq ?r (int m - int k))"
      using Suc.hyps by (simp add: i_step_sum)
    also have "(\<Sum>k = 1..<m. getitem_seq ?s (int k - 1) * getitem_seq ?r (int m - int k))
        = (\<Sum>k = 1..<m. getitem_seq a (int k - 1) * getitem_seq ?r (int m - int k))"
      by (rule sum.cong [OF refl]) (simp add: s_get)
    also have "\<dots> = (\<Sum>k = 0..<m - 1. getitem_seq a (int k) * getitem_seq ?r (int m - int k - 1))"
    proof -
      have "{1..<m} = {Suc 0..<Suc (m - 1)}" using Suc.hyps by auto
      then have "(\<Sum>k = 1..<m. getitem_seq a (int k - 1) * getitem_seq ?r (int m - int k))
          = (\<Sum>k = Suc 0..<Suc (m - 1). getitem_seq a (int k - 1) * getitem_seq ?r (int m - int k))"
        by simp
      also have "\<dots> = (\<Sum>k = 0..<m - 1. getitem_seq a (int (Suc k) - 1) * getitem_seq ?r (int m - int (Suc k)))"
        by (simp only: sum.shift_bounds_Suc_ivl)
      also have "\<dots> = (\<Sum>k = 0..<m - 1. getitem_seq a (int k) * getitem_seq ?r (int m - int k - 1))"
        by (rule sum.cong [OF refl]) (simp add: algebra_simps)
      finally show ?thesis .
    qed
    also have "getitem_seq ?r (int m) = f_step a ?r m"
      using n Suc.hyps by (simp add: getitem_seq_nth length_f_loop f_loop_rec)
    also have "\<dots> = (\<Sum>k = 0..<Suc (m - 1). getitem_seq a (int k) * getitem_seq ?r (int m - int k - 1))"
      using Suc.hyps by (simp add: f_step_sum_upto)
    also have "\<dots> = (\<Sum>k = 0..<m - 1. getitem_seq a (int k) * getitem_seq ?r (int m - int k - 1))
        + getitem_seq a (int (m - 1)) * getitem_seq ?r (int m - int (m - 1) - 1)"
      by simp
    also have "getitem_seq ?r (int m - int (m - 1) - 1) = 1"
      using n Suc.hyps by (simp add: getitem_f_loop_0 of_nat_diff)
    finally have "i_step ?r ?s m = getitem_seq a (int (m - 1))"
      by simp
    then show ?thesis
      using Suc.hyps len j by (simp add: i_loop_Suc nth_append)
  qed
qed

lemma sum_shift_one:
  fixes h :: "nat \<Rightarrow> 'a::comm_ring_1"
  assumes "1 \<le> x"
  shows "(\<Sum>k = 1..<x. h k) = (\<Sum>k = 0..<x - 1. h (Suc k))"
proof -
  have "{1..<x} = {Suc 0..<Suc (x - 1)}" using assms by auto
  then show ?thesis
    by (simp only: sum.shift_bounds_Suc_ivl)
qed

lemma getitem_seq_int: "k < length v \<Longrightarrow> getitem_seq v (int k) = v ! k"
  by (simp add: getitem_seq_nth)

lemma f_loop_small: "n \<le> 1 \<Longrightarrow> f_loop a n = [1]"
  by (simp add: f_loop_def)

text \<open>With \<open>a[0] = 1\<close> the recurrence of the inverse, read backwards, is a convolution identity.\<close>

lemma i_loop_convolution:
  fixes a :: "'a::comm_ring_1 list"
  assumes a0: "getitem_seq a 0 = 1" and x: "1 \<le> x" "x < len_seq a"
  shows "getitem_seq a (int x) =
    (\<Sum>k = 0..<x. getitem_seq (i_loop a (len_seq a)) (int k) * getitem_seq a (int x - int k - 1))"
proof (cases "x = 1")
  case True
  then show ?thesis
    by (simp add: getitem_i_loop_0 a0)
next
  case False
  let ?t = "i_loop a (len_seq a)"
  from False x have x2: "2 \<le> x" by simp
  then have m2: "2 \<le> len_seq a" using x by simp
  have len: "length ?t = len_seq a - 1" using m2 by (rule length_i_loop)
  have "x - 1 < length ?t"
    using x len by simp
  then have "getitem_seq ?t (int (x - 1)) = ?t ! (x - 1)"
    by (rule getitem_seq_int)
  also have "\<dots> = i_step a ?t x"
    using m2 x2 x(2) by (rule i_loop_rec)
  also have "\<dots> = getitem_seq a (int x)
      - (\<Sum>k = 1..<x. getitem_seq ?t (int k - 1) * getitem_seq a (int x - int k))"
    using x by (simp add: i_step_sum)
  also have "(\<Sum>k = 1..<x. getitem_seq ?t (int k - 1) * getitem_seq a (int x - int k))
      = (\<Sum>k = 0..<x - 1. getitem_seq ?t (int (Suc k) - 1) * getitem_seq a (int x - int (Suc k)))"
    using x(1) by (rule sum_shift_one)
  also have "\<dots> = (\<Sum>k = 0..<x - 1. getitem_seq ?t (int k) * getitem_seq a (int x - int k - 1))"
    by (rule sum.cong [OF refl]) (simp add: algebra_simps)
  finally have eq: "getitem_seq a (int x) = getitem_seq ?t (int (x - 1))
      + (\<Sum>k = 0..<x - 1. getitem_seq ?t (int k) * getitem_seq a (int x - int k - 1))"
    by simp
  have "(\<Sum>k = 0..<x. getitem_seq ?t (int k) * getitem_seq a (int x - int k - 1))
      = (\<Sum>k = 0..<Suc (x - 1). getitem_seq ?t (int k) * getitem_seq a (int x - int k - 1))"
    using x by simp
  also have "\<dots> = (\<Sum>k = 0..<x - 1. getitem_seq ?t (int k) * getitem_seq a (int x - int k - 1))
      + getitem_seq ?t (int (x - 1)) * getitem_seq a (int x - int (x - 1) - 1)"
    by simp
  also have "getitem_seq a (int x - int (x - 1) - 1) = 1"
    using x by (simp add: a0 of_nat_diff)
  finally show ?thesis
    using eq by simp
qed

text \<open>The signature function applied to the inverse: the stored coefficients are those of \<open>a\<close>.\<close>

lemma f_loop_i_loop:
  fixes a :: "'a::comm_ring_1 list"
  assumes a0: "getitem_seq a 0 = 1" and "x < n" and "x < len_seq a"
  shows "f_loop (i_loop a (len_seq a)) n ! x = getitem_seq a (int x)"
  using assms(2,3)
proof (induction x rule: less_induct)
  case (less x)
  let ?t = "i_loop a (len_seq a)"
  let ?r = "f_loop ?t n"
  have n: "1 \<le> n" using less.prems by simp
  show ?case
  proof (cases "x = 0")
    case True
    then show ?thesis using n by (simp add: f_loop_nth_0 a0)
  next
    case False
    then have x1: "1 \<le> x" by simp
    have r_get: "getitem_seq ?r (int x - int k - 1) = getitem_seq a (int x - int k - 1)"
      if "k \<in> {0..<x}" for k
    proof -
      from that have idx: "int x - int k - 1 = int (x - k - 1)" "x - k - 1 < x" by auto
      then have "x - k - 1 < n" "x - k - 1 < len_seq a" using less.prems by simp_all
      then have "?r ! (x - k - 1) = getitem_seq a (int (x - k - 1))"
        using less.IH [of "x - k - 1"] idx by simp
      moreover have "getitem_seq ?r (int (x - k - 1)) = ?r ! (x - k - 1)"
        using \<open>x - k - 1 < n\<close> n by (simp add: getitem_seq_nth length_f_loop)
      ultimately show ?thesis by (simp only: idx)
    qed
    have "?r ! x = f_step ?t ?r x"
      using n x1 less.prems by (simp add: f_loop_rec)
    also have "\<dots> = (\<Sum>k = 0..<x. getitem_seq ?t (int k) * getitem_seq ?r (int x - int k - 1))"
      by (rule f_step_sum_upto)
    also have "\<dots> = (\<Sum>k = 0..<x. getitem_seq ?t (int k) * getitem_seq a (int x - int k - 1))"
      by (rule sum.cong [OF refl]) (simp only: r_get)
    also have "\<dots> = getitem_seq a (int x)"
      using i_loop_convolution [OF a0 x1] less.prems by simp
    finally show ?thesis .
  qed
qed

text \<open>
  Claim C3. The inverse signature function undoes the signature function on the window the
  two results share. \<open>Seq.i\<close> accepts \<open>a.f(l)\<close>, and its result agrees with the zero-padded \<open>a\<close>
  at every index below \<open>l - 1\<close>, hence on the common prefix of the two. When \<open>a[0] = 1\<close>,
  \<open>Seq.i\<close> accepts \<open>a\<close>, and \<open>a.i().f(l)\<close> agrees with \<open>a\<close> on their common prefix. Indices are
  read by \<open>Seq.__getitem__\<close> and lengths by \<open>Seq.__len__\<close>.
\<close>

theorem signature_inverse_law:
  fixes a :: "'a::comm_ring_1 list"
  shows "(\<exists>s. i_seq (f_seq a l) = Inr s \<and>
            (\<forall>k. int k < l - 1 \<longrightarrow> getitem_seq s (int k) = getitem_seq a (int k)) \<and>
            (\<forall>k. k < min (len_seq s) (len_seq a) \<longrightarrow> getitem_seq s (int k) = getitem_seq a (int k))) \<and>
         (getitem_seq a 0 = 1 \<longrightarrow>
           (\<exists>t. i_seq a = Inr t \<and>
              (\<forall>k. k < min (len_seq (f_seq t l)) (len_seq a) \<longrightarrow>
                 getitem_seq (f_seq t l) (int k) = getitem_seq a (int k))))"
proof (intro conjI impI)
  let ?n = "max 1 (nat l)"
  let ?r = "f_loop a ?n"
  let ?s = "i_loop ?r ?n"
  have r: "f_seq a l = ?r"
    by (cases "1 \<le> nat l") (simp_all add: f_seq_def f_loop_small max_def)
  have isq: "i_seq (f_seq a l) = Inr ?s"
    by (simp add: r i_seq_def getitem_f_loop_0 len_seq_f_loop)
  have window: "getitem_seq ?s (int k) = getitem_seq a (int k)" if "int k < l - 1" for k
  proof -
    from that have n2: "2 \<le> ?n" and k: "k < ?n - 1" by auto
    have "length ?s = ?n - 1" using n2 by (rule length_i_loop)
    with k have "k < length ?s" by simp
    then have "getitem_seq ?s (int k) = ?s ! k" by (rule getitem_seq_int)
    also have "\<dots> = getitem_seq a (int k)"
      using n2 _ k by (rule i_loop_f_loop) simp
    finally show ?thesis .
  qed
  have prefix: "getitem_seq ?s (int k) = getitem_seq a (int k)" if "k < min (len_seq ?s) (len_seq a)" for k
  proof (cases "2 \<le> ?n")
    case True
    then have "length ?s = ?n - 1" by (rule length_i_loop)
    with that len_seq_le [of ?s] True have "int k < l - 1" by linarith
    then show ?thesis by (rule window)
  next
    case False
    then have "?s = [getitem_seq ?r 1]" by (simp add: i_loop_base)
    moreover from False have "?r = [1]" by (simp add: f_loop_small)
    ultimately have "len_seq ?s = 0" by (simp add: getitem_seq_nth len_seq_def)
    with that show ?thesis by simp
  qed
  from isq window prefix
  show "\<exists>s. i_seq (f_seq a l) = Inr s \<and>
            (\<forall>k. int k < l - 1 \<longrightarrow> getitem_seq s (int k) = getitem_seq a (int k)) \<and>
            (\<forall>k. k < min (len_seq s) (len_seq a) \<longrightarrow> getitem_seq s (int k) = getitem_seq a (int k))"
    by blast
next
  assume a0: "getitem_seq a 0 = 1"
  let ?t = "i_loop a (len_seq a)"
  let ?n = "max 1 (nat l)"
  have it: "i_seq a = Inr ?t"
    by (simp add: i_seq_def a0)
  have f: "f_seq ?t l = f_loop ?t ?n"
    by (cases "1 \<le> nat l") (simp_all add: f_seq_def f_loop_small max_def)
  have "getitem_seq (f_seq ?t l) (int k) = getitem_seq a (int k)"
    if "k < min (len_seq (f_seq ?t l)) (len_seq a)" for k
  proof -
    from that have k: "k < ?n" "k < len_seq a"
      by (simp_all add: f len_seq_f_loop)
    have "k < length (f_loop ?t ?n)"
      using k by (simp add: length_f_loop)
    then have "getitem_seq (f_loop ?t ?n) (int k) = f_loop ?t ?n ! k"
      by (rule getitem_seq_int)
    also have "\<dots> = getitem_seq a (int k)"
      using a0 k by (rule f_loop_i_loop)
    finally show ?thesis
      by (simp only: f)
  qed
  with it show "\<exists>t. i_seq a = Inr t \<and>
              (\<forall>k. k < min (len_seq (f_seq t l)) (len_seq a) \<longrightarrow>
                 getitem_seq (f_seq t l) (int k) = getitem_seq a (int k))"
    by blast
qed

theorem signature_inverse_law_witness:
  "getitem_seq [1, 2, 3 :: int] 0 = 1 \<and>
   i_seq (f_seq [1, 2, 3 :: int] 5) = Inr [1, 2, 3, 0] \<and>
   i_seq [1, 2, 3 :: int] = Inr [2, - 1] \<and>
   f_seq [2, - 1 :: int] 5 = [1, 2, 3, 4, 5] \<and>
   getitem_seq (f_seq [2, - 1 :: int] 5) 2 = getitem_seq [1, 2, 3 :: int] 2"
proof -
  have a0: "getitem_seq [1, 2, 3 :: int] 0 = 1" by code_simp
  have e1: "i_seq (f_seq [1, 2, 3 :: int] 5) = Inr [1, 2, 3, 0]" by code_simp
  have e2: "i_seq [1, 2, 3 :: int] = Inr [2, - 1]" by code_simp
  have e3: "f_seq [2, - 1 :: int] 5 = [1, 2, 3, 4, 5]" by code_simp
  have l1: "len_seq (f_seq [2, - 1 :: int] 5) = 5" by (simp add: e3 len_seq_def)
  have l2: "len_seq [1, 2, 3 :: int] = 3" by (simp add: len_seq_def)
  from signature_inverse_law [of "[1, 2, 3 :: int]" 5] a0 e2
  have "\<forall>k. k < min (len_seq (f_seq [2, - 1 :: int] 5)) (len_seq [1, 2, 3 :: int]) \<longrightarrow>
      getitem_seq (f_seq [2, - 1 :: int] 5) (int k) = getitem_seq [1, 2, 3 :: int] (int k)"
    by simp
  from this [rule_format, of 2]
  have "getitem_seq (f_seq [2, - 1 :: int] 5) 2 = getitem_seq [1, 2, 3 :: int] 2"
    by (simp add: l1 l2)
  with a0 e1 e2 e3 show ?thesis by simp
qed

section \<open>Signature convolution\<close>

lemma mul_sig_unfold:
  "mul_sig s t = Sig (mul_seq (fst (foldl
            (\<lambda>(out, g) k. (add_seq out (mul_seq g [getitem_sig t (int k)]), mul_seq g (mul_seq (sval s) x_shift)))
            ([0], [1]) [0..<len_sig t])) (sval s))"
  by (simp add: mul_sig_def Let_def split_beta)

lemma mul_sig_loop_one:
  fixes t :: "'a::comm_ring_1 sig"
  defines "body \<equiv> (\<lambda>(out, g) k. (add_seq out (mul_seq g [getitem_sig t (int k)]), mul_seq g (mul_seq [1] x_shift)))"
  shows "(\<forall>i. getitem_seq (fst (foldl body ([0], [1]) [0..<n])) i
                = (if 0 \<le> i \<and> i < int n then getitem_sig t i else 0)) \<and>
         (\<forall>i. getitem_seq (snd (foldl body ([0], [1]) [0..<n])) i = (if i = int n then 1 else 0))"
proof (induction n)
  case 0
  show ?case by (auto simp: getitem_single)
next
  case (Suc n)
  obtain out g where st: "foldl body ([0], [1]) [0..<n] = (out, g)"
    by (cases "foldl body ([0], [1]) [0..<n]")
  from Suc st have out: "\<And>i. getitem_seq out i = (if 0 \<le> i \<and> i < int n then getitem_sig t i else 0)"
    and g: "\<And>i. getitem_seq g i = (if i = int n then 1 else 0)"
    by simp_all
  have step: "foldl body ([0], [1]) [0..<Suc n]
      = (add_seq out (mul_seq g [getitem_sig t (int n)]), mul_seq g (mul_seq [1] x_shift))"
  proof -
    have "foldl body ([0], [1]) [0..<Suc n] = body (out, g) n"
      by (simp add: st)
    then show ?thesis
      by (simp add: body_def)
  qed
  have "getitem_seq (add_seq out (mul_seq g [getitem_sig t (int n)])) i
      = (if 0 \<le> i \<and> i < int (Suc n) then getitem_sig t i else 0)" for i
    by (auto simp: getitem_add_seq getitem_mul_single_right out g)
  moreover have "getitem_seq (mul_seq g (mul_seq [1] x_shift)) i = (if i = int (Suc n) then 1 else 0)" for i
    by (simp add: getitem_mul_delta [of g n, OF g] getitem_mul_single_left getitem_x_shift)
  ultimately show ?case
    unfolding step by simp
qed

lemma getitem_mul_sig_one_left:
  "getitem_seq (sval (mul_sig (Sig [1]) t)) i = getitem_sig t i"
proof -
  let ?body = "\<lambda>(out, g) k. (add_seq out (mul_seq g [getitem_sig t (int k)]), mul_seq g (mul_seq [1] x_shift))"
  let ?out = "fst (foldl ?body ([0], [1]) [0..<len_sig t])"
  have out: "getitem_seq ?out j = (if 0 \<le> j \<and> j < int (len_sig t) then getitem_sig t j else 0)" for j
    using mul_sig_loop_one [of t "len_sig t"] by simp
  have "getitem_seq (mul_seq ?out [1]) i = getitem_seq ?out i"
    by (simp add: getitem_mul_single_right)
  also have "\<dots> = getitem_sig t i"
  proof (cases "0 \<le> i \<and> i < int (len_sig t)")
    case True
    then show ?thesis by (simp add: out)
  next
    case False
    then have "getitem_sig t i = 0"
      by (auto simp: getitem_sig_def len_sig_def getitem_seq_def)
    with False show ?thesis by (simp add: out)
  qed
  finally show ?thesis
    by (simp add: mul_sig_unfold)
qed

lemma len_seq_one: "len_seq [1 :: 'a::comm_ring_1] = 1"
  by (simp add: len_seq_def)

lemma getitem_mul_sig_one_right:
  "getitem_seq (sval (mul_sig s (Sig [1]))) i = getitem_sig s i"
proof -
  let ?out = "add_seq [0] (mul_seq [1] [1 :: 'a])"
  have out: "getitem_seq ?out j = (if j = int 0 then 1 else 0)" for j
    by (simp add: getitem_add_seq getitem_mul_single_right getitem_single)
  have "sval (mul_sig s (Sig [1])) = mul_seq ?out (sval s)"
    by (simp add: mul_sig_unfold len_sig_def len_seq_one getitem_sig_def getitem_single)
  then show ?thesis
    by (simp add: getitem_mul_delta [of ?out 0, OF out] getitem_sig_def)
qed

text \<open>
  Claim C6. \<open>Sig(1)\<close> is a two-sided identity of signature convolution: for every signature
  \<open>A\<close>, \<open>A * Sig(1) == A\<close> and \<open>Sig(1) * A == A\<close>, with \<open>==\<close> the comparison \<open>Sig.__eq__\<close>.
\<close>

theorem sig_one_identity:
  fixes A :: "'a::comm_ring_1 sig"
  shows "eq_sig (mul_sig A (Sig [1])) A \<and> eq_sig (mul_sig (Sig [1]) A) A"
proof
  have "getitem_seq (sval (mul_sig A (Sig [1]))) i = getitem_seq (sval A) i" for i
    by (simp add: getitem_mul_sig_one_right getitem_sig_def)
  then show "eq_sig (mul_sig A (Sig [1])) A"
    unfolding eq_sig_def by (rule eq_seq_I)
next
  have "getitem_seq (sval (mul_sig (Sig [1]) A)) i = getitem_seq (sval A) i" for i
    by (simp add: getitem_mul_sig_one_left getitem_sig_def)
  then show "eq_sig (mul_sig (Sig [1]) A) A"
    unfolding eq_sig_def by (rule eq_seq_I)
qed

section \<open>Antidiagonal summation\<close>









section \<open>Index assignment and the identity block\<close>

text \<open>
  Claim C10. An assignment \<open>s[k] = v\<close> with \<open>k < 0\<close> or \<open>k \<ge> len(s)\<close> returns normally (the model
  of \<open>Seq.__setitem__\<close> has no error result) and leaves \<open>s\<close> as it was. \<open>Seq([0])\<close> has length 0, so
  assigning its index 0 changes nothing, and \<open>Block.identity(1)\<close> is the block of the single row
  \<open>[0]\<close>, not \<open>[[1]]\<close>.
\<close>

theorem setitem_seq_out_of_range:
  fixes s :: "'a::comm_ring_1 list"
  assumes "k < 0 \<or> int (len_seq s) \<le> k"
  shows "setitem_seq s k v = s \<and>
         len_seq [0 :: 'a] = 0 \<and> setitem_seq [0 :: 'a] 0 v = [0] \<and>
         identity_block 1 = Inr \<lparr>l_of = std_l, L_of = 0, val_of = [[0 :: 'a]]\<rparr>"
proof -
  have "setitem_seq s k v = s"
    using assms by (auto simp: setitem_seq_def)
  moreover have "len_seq [0 :: 'a] = 0"
    by (simp add: len_seq_def)
  moreover have "setitem_seq [0 :: 'a] 0 v = [0]"
    by (simp add: setitem_seq_def len_seq_def)
  moreover have "identity_block 1 = Inr \<lparr>l_of = std_l, L_of = 0, val_of = [[0 :: 'a]]\<rparr>"
    by (simp add: identity_block_def blank_block_def Block_init_def len_seq_def setcell_block_def setitem_seq_def)
  ultimately show ?thesis by simp
qed

theorem setitem_seq_out_of_range_witness:
  "int (len_seq [1, 2 :: int]) \<le> 2 \<and> setitem_seq [1, 2 :: int] 2 9 = [1, 2] \<and>
   setitem_seq [0 :: int] 0 1 = [0] \<and>
   (identity_block 1 :: error + int block) = Inr \<lparr>l_of = std_l, L_of = 0, val_of = [[0]]\<rparr>"
proof -
  have h: "int (len_seq [1, 2 :: int]) \<le> 2" by (simp add: len_seq_def)
  then have "(2::int) < 0 \<or> int (len_seq [1, 2 :: int]) \<le> 2" by simp
  from setitem_seq_out_of_range [OF this, of 9] setitem_seq_out_of_range [OF this, of 1] h
  show ?thesis by simp
qed

section \<open>Block powers\<close>

lemma pow_block_zero: "pow_block A 0 = identity_block (int (length (val_of A)))"
  by (simp add: pow_block_def)

lemma pow_block_one:
  "pow_block A 1 = (case Block_init (val_of A) std_l of Inl e \<Rightarrow> Inl e | Inr out \<Rightarrow> mul_block out A)"
  by (simp add: pow_block_def)

lemma pow_block_Suc:
  "1 \<le> n \<Longrightarrow> pow_block A (n + 1) = (case pow_block A n of Inl e \<Rightarrow> Inl e | Inr out \<Rightarrow> mul_block out A)"
  by (simp add: pow_block_def nat_add_distrib)

text \<open>
  Claim C7 says that \<open>M ** 1\<close> is \<open>M\<close>. \<open>Block.__pow__\<close> starts from a copy of \<open>M\<close> and multiplies
  by \<open>M\<close> once for every \<open>k\<close> in \<open>range(n)\<close>, so \<open>M ** n\<close> is the product of \<open>n + 1\<close> factors
  (\<open>pow_block_one\<close>, \<open>pow_block_Suc\<close>). For \<open>M = Block([Seq([2,0]), Seq([0,2])])\<close> the code returns
  \<open>M * M\<close>, whose entry \<open>(0, 0)\<close> is 4, where that of \<open>M\<close> is 2.
\<close>

theorem block_pow_one_squares:
  "Block_init [[2, 0], [0, 2 :: int]] std_l = Inr \<lparr>l_of = 30, L_of = 2, val_of = [[2, 0], [0, 2]]\<rparr> \<and>
   pow_block \<lparr>l_of = 30, L_of = 2, val_of = [[2, 0], [0, 2 :: int]]\<rparr> 1
     = Inr \<lparr>l_of = 30, L_of = 2, val_of = [[4, 0], [0, 4]] @ replicate 28 [0, 0]\<rparr> \<and>
   pow_block \<lparr>l_of = 30, L_of = 2, val_of = [[2, 0], [0, 2 :: int]]\<rparr> 1
     = mul_block \<lparr>l_of = 30, L_of = 2, val_of = [[2, 0], [0, 2]]\<rparr> \<lparr>l_of = 30, L_of = 2, val_of = [[2, 0], [0, 2]]\<rparr> \<and>
   getitem_seq (getitem_block \<lparr>l_of = 30, L_of = 2, val_of = [[4, 0], [0, 4 :: int]] @ replicate 28 [0, 0]\<rparr> 0) 0 = 4 \<and>
   getitem_seq (getitem_block \<lparr>l_of = 30, L_of = 2, val_of = [[2, 0], [0, 2 :: int]]\<rparr> 0) 0 = 2"
  by code_simp

section \<open>Division\<close>

lemma truediv_seq_zero_divisor:
  "getitem_seq b 0 = 0 \<Longrightarrow> truediv_seq a b = Inl ZeroDivisionError"
  by (simp add: truediv_seq_def)

lemma floordiv_sig_zero_divisor:
  "getitem_sig b 0 = 0 \<Longrightarrow> floordiv_sig s b = Inl ZeroDivisionError"
  by (simp add: floordiv_sig_def Let_def)

lemma truediv_sig_zero_divisor:
  assumes "getitem_sig a 0 = 0" and "1 \<le> max (len_sig s) (len_sig a)"
  shows "truediv_sig s a = Inl ZeroDivisionError"
proof -
  from assms(2) have "[0..<max (len_sig s) (len_sig a)] = 0 # [1..<max (len_sig s) (len_sig a)]"
    by (simp add: upt_conv_Cons)
  then show ?thesis
    using assms(1) by (simp add: truediv_sig_def Let_def getitem_sig_def)
qed

lemma strip_zeros_Nil: "strip_zeros [] = Inl IndexError"
  by simp

lemma truediv_sig_both_empty:
  assumes "len_sig s = 0" and "len_sig a = 0"
  shows "truediv_sig s a = Inl IndexError"
  using assms by (simp add: truediv_sig_def)

text \<open>
  From the second round on, \<open>bp\<close> is a product with \<open>0 * a\<close>, all of whose coefficients are 0:
  every quotient of two or more coefficients divides by zero.
\<close>

lemma getitem_mul_sig_zero: "getitem_seq (sval (mul_sig (Sig [0]) a)) i = 0"
  by (simp add: mul_sig_unfold getitem_mul_single_right)

lemma getitem_mul_seq_zero:
  assumes "\<And>j. getitem_seq z j = 0"
  shows "getitem_seq (mul_seq b z) i = 0"
  by (simp add: getitem_mul_seq assms)

lemma truediv_sig_long:
  assumes "2 \<le> max (len_sig s) (len_sig a)"
  shows "truediv_sig s a = Inl ZeroDivisionError"
proof -
  let ?l = "max (len_sig s) (len_sig a)"
  from assms have upt: "[0..<?l] = 0 # 1 # [2..<?l]"
    by (simp add: upt_conv_Cons numeral_2_eq_2)
  have "getitem_seq (mul_seq (sval a) (sval (mul_sig (Sig [of_nat 0]) a))) (int 1) = 0"
    by (rule getitem_mul_seq_zero) (simp add: getitem_mul_sig_zero)
  then have "truediv_loop a (0 # 1 # [2..<?l]) ([], sval s, sval a) = Inl ZeroDivisionError"
    by (simp add: Let_def)
  then show ?thesis
    by (simp add: truediv_sig_def Let_def upt)
qed

lemma strip_zeros_single: "c \<noteq> 0 \<Longrightarrow> strip_zeros [c] = Inr [c]"
  by simp

text \<open>
  Where \<open>Sig.__truediv__\<close> returns: both operands of one coefficient, neither 0. There the
  quotient times \<open>B\<close>, as sequences, is \<open>A\<close>.
\<close>

lemma truediv_sig_single:
  fixes c d :: "'a::field"
  assumes "c \<noteq> 0" and "d \<noteq> 0"
  shows "truediv_sig (Sig [c]) (Sig [d]) = Inr (Sig [c / d]) \<and> mul_seq [c / d] [d] = [c]"
proof -
  have len: "len_seq [c] = 1" "len_seq [d] = 1" "len_seq [c / d] = 1"
    using assms by (simp_all add: len_seq_def)
  have "truediv_sig (Sig [c]) (Sig [d]) = Inr (Sig [c / d])"
    using assms by (simp add: truediv_sig_def len_sig_def len getitem_seq_def Let_def)
  moreover have "mul_seq [c / d] [d] = [c]"
    using assms by (simp add: mul_seq_def len py_sum_def getitem_seq_def)
  ultimately show ?thesis by simp
qed

text \<open>
  Claim C4 says that \<open>(A / B) * B = A\<close> whenever \<open>B[0]\<close> is not 0. \<open>Sig([1,1]) / Sig([1])\<close> has
  \<open>B[0] = 1\<close> and raises \<open>ZeroDivisionError\<close> in the second round of the loop, as does every
  division with two or more coefficients (\<open>truediv_sig_long\<close>): no quotient is returned.
\<close>

theorem sig_truediv_raises:
  "truediv_sig (Sig [1, 1 :: rat]) (Sig [1]) = Inl ZeroDivisionError \<and>
   getitem_sig (Sig [1 :: rat]) 0 = 1"
  by code_simp

text \<open>
  Claim C8 says that all three divisions raise the division error when the divisor's leading
  coefficient is 0. \<open>Seq.__truediv__\<close> and \<open>Sig.__floordiv__\<close> do (\<open>truediv_seq_zero_divisor\<close>,
  \<open>floordiv_sig_zero_divisor\<close>), and \<open>Sig.__truediv__\<close> does when an operand has a length of at
  least 1 (\<open>truediv_sig_zero_divisor\<close>). For \<open>Sig([0]) / Sig([0])\<close> both lengths are 0, the loop
  is empty and \<open>out[-1]\<close> on the empty list raises \<open>IndexError\<close>.
\<close>

theorem sig_truediv_zero_by_zero:
  "getitem_sig (Sig [0 :: rat]) 0 = 0 \<and>
   truediv_sig (Sig [0 :: rat]) (Sig [0]) = Inl IndexError \<and>
   truediv_seq [0 :: rat] [0] = Inl ZeroDivisionError \<and>
   floordiv_sig (Sig [0 :: rat]) (Sig [0]) = Inl ZeroDivisionError"
  by code_simp

section \<open>Sequence division in exact arithmetic\<close>

text \<open>
  In a field the recurrence of \<open>Seq.__truediv__\<close> inverts the Cauchy product on the quotient's
  window: coefficient \<open>x\<close> of \<open>(a / b) * b\<close> is \<open>a[x]\<close> for every \<open>x\<close> below
  \<open>max(len(a), len(b))\<close>. Python computes the quotient's coefficients as floats, which round, so
  this is a property of the recurrence and says nothing about the floats the code returns.
\<close>

lemma truediv_seq_exact:
  fixes a b :: "'a::field list"
  assumes b0: "getitem_seq b 0 \<noteq> 0" and q: "truediv_seq a b = Inr q"
    and x: "x < max (len_seq a) (len_seq b)"
  shows "getitem_seq (mul_seq q b) (int x) = getitem_seq a (int x)"
proof -
  define step where "step = (\<lambda>r x. r @ [(getitem_seq a (int x)
        - py_sum (map (\<lambda>k. getitem_seq r (int k) * getitem_seq b (int x - int k)) [0..<x]))
      / getitem_seq b 0])"
  define loop where "loop n = foldl step [getitem_seq a 0 / getitem_seq b 0] [1..<n]" for n
  let ?S = "\<lambda>r x. (\<Sum>k = 0..<x. getitem_seq r (int k) * getitem_seq b (int x - int k))"
  have loop_Suc: "loop (Suc n) = loop n @ [(getitem_seq a (int n) - ?S (loop n) n) / getitem_seq b 0]"
    if "1 \<le> n" for n
    using that by (simp add: loop_def step_def py_sum_upt)
  have len: "length (loop n) = n" if "1 \<le> n" for n
    using that
  proof (induction n rule: nat_induct_at_least)
    case base
    show ?case by (simp add: loop_def)
  next
    case (Suc n)
    then show ?case by (simp add: loop_Suc)
  qed
  have S_append: "?S (r @ s) y = ?S r y" if "y \<le> length r" for r s y
    using that by (intro sum.cong) (auto simp: getitem_seq_nth nth_append)
  have rec: "getitem_seq (loop n) (int y) * getitem_seq b 0 = getitem_seq a (int y) - ?S (loop n) y"
    if "1 \<le> n" "y < n" for n y
    using that
  proof (induction n rule: nat_induct_at_least)
    case base
    then show ?case using b0 by (simp add: loop_def getitem_seq_nth)
  next
    case (Suc n)
    have ln: "length (loop n) = n" using Suc.hyps by (rule len)
    show ?case
    proof (cases "y < n")
      case True
      then have "getitem_seq (loop (Suc n)) (int y) = getitem_seq (loop n) (int y)"
        using Suc.hyps ln by (simp add: loop_Suc getitem_seq_nth nth_append)
      moreover have "?S (loop (Suc n)) y = ?S (loop n) y"
        using Suc.hyps ln True by (simp only: loop_Suc S_append)
      ultimately show ?thesis using Suc.IH True by simp
    next
      case False
      then have y: "y = n" using Suc.prems by simp
      have "getitem_seq (loop (Suc n)) (int n) = (getitem_seq a (int n) - ?S (loop n) n) / getitem_seq b 0"
        using Suc.hyps ln by (simp add: loop_Suc getitem_seq_nth nth_append)
      moreover have "?S (loop (Suc n)) n = ?S (loop n) n"
        using Suc.hyps ln by (simp only: loop_Suc S_append)
      ultimately show ?thesis using b0 y by simp
    qed
  qed
  let ?l = "max (len_seq a) (len_seq b)"
  from b0 q have qq: "q = loop ?l"
    by (simp add: truediv_seq_def loop_def step_def)
  from x have l1: "1 \<le> ?l" by simp
  have "getitem_seq (mul_seq q b) (int x)
      = (\<Sum>k = 0..<Suc x. getitem_seq q (int k) * getitem_seq b (int x - int k))"
    by (simp add: getitem_mul_seq del: sum.op_ivl_Suc)
  also have "\<dots> = ?S q x + getitem_seq q (int x) * getitem_seq b 0"
    by simp
  also have "\<dots> = getitem_seq a (int x)"
    using rec [OF l1 x] by (simp add: qq)
  finally show ?thesis .
qed

end
